theory Spec2Isabelle
  imports Main "HOL-Library.Word" "HOL-Library.Monad_Syntax"
begin

section \<open>Strings of UTF-16 code units\<close>

text \<open>
  A JavaScript string is a sequence of 16-bit code units, and a regular expression without
  the \<open>u\<close> flag works on code units. String literals of the source are written
  \<open>js ''...''\<close>.
\<close>

type_synonym code_unit = "16 word"
type_synonym jsstring = "code_unit list"

definition js :: "string \<Rightarrow> jsstring" where
  "js s = map of_char s"

definition pipe :: code_unit where
  "pipe = 0x7C"

definition lparen :: code_unit where
  "lparen = 0x28"

definition rparen :: code_unit where
  "rparen = 0x29"

text \<open>
  The class \<open>\s\<close> and \<open>String.prototype.trim\<close> use the same set: WhiteSpace
  (TAB, VT, FF, SP, NBSP, ZWNBSP and the space separators) and LineTerminator
  (LF, CR, LS, PS).
\<close>

definition isLineTerminator :: "code_unit \<Rightarrow> bool" where
  "isLineTerminator c \<longleftrightarrow> c = 0x0A \<or> c = 0x0D \<or> c = 0x2028 \<or> c = 0x2029"

definition isWhiteSpace :: "code_unit \<Rightarrow> bool" where
  "isWhiteSpace c \<longleftrightarrow>
     c = 0x09 \<or> c = 0x0A \<or> c = 0x0B \<or> c = 0x0C \<or> c = 0x0D \<or> c = 0x20 \<or> c = 0xA0 \<or>
     c = 0x1680 \<or> (0x2000 \<le> c \<and> c \<le> 0x200A) \<or> c = 0x2028 \<or> c = 0x2029 \<or>
     c = 0x202F \<or> c = 0x205F \<or> c = 0x3000 \<or> c = 0xFEFF"

text \<open>\<open>s.trim()\<close>\<close>

definition trim :: "jsstring \<Rightarrow> jsstring" where
  "trim s = rev (dropWhile isWhiteSpace (rev (dropWhile isWhiteSpace s)))"

text \<open>
  The \<open>i\<close> flag compares canonicalised code units. The patterns of the source hold
  ASCII characters only, and a code unit from 128 on never canonicalises to an ASCII one,
  so upper-casing the ASCII letters decides every comparison the source makes.
\<close>

definition canonicalize :: "code_unit \<Rightarrow> code_unit" where
  "canonicalize c = (if 0x61 \<le> c \<and> c \<le> 0x7A then c - 0x20 else c)"


section \<open>The regular expressions of the parser\<close>

text \<open>\<open>md.split(/\r?\n/)\<close>: at each position the separator is CR LF or LF.\<close>

fun splitLines :: "jsstring \<Rightarrow> jsstring list" where
  "splitLines [] = [[]]"
| "splitLines [c] = (if c = 0x0A then [[], []] else [[c]])"
| "splitLines (c # d # cs) =
     (if c = 0x0D \<and> d = 0x0A then [] # splitLines cs
      else if c = 0x0A then [] # splitLines (d # cs)
      else (case splitLines (d # cs) of
              [] \<Rightarrow> [[c]]
            | l # ls \<Rightarrow> (c # l) # ls))"

text \<open>
  \<open>/^###\s+(.+?)\s*$/\<close> and \<open>/^##\s+(.+?)\s*$/\<close>, with the backtracking order of
  the matcher: \<open>\s+\<close> is greedy and gives whitespace back one code unit at a time;
  \<open>(.+?)\<close> is lazy, takes one code unit that is no line terminator and grows only while
  \<open>\s*$\<close> fails on the rest. The result is the capture group.
\<close>

fun lazyDots :: "jsstring \<Rightarrow> jsstring \<Rightarrow> jsstring option" where
  "lazyDots acc [] = Some acc"
| "lazyDots acc (c # cs) =
     (if list_all isWhiteSpace (c # cs) then Some acc
      else if isLineTerminator c then None
      else lazyDots (acc @ [c]) cs)"

definition captureGroup :: "jsstring \<Rightarrow> jsstring option" where
  "captureGroup r =
     (case r of
        [] \<Rightarrow> None
      | c # cs \<Rightarrow> if isLineTerminator c then None else lazyDots [c] cs)"

fun greedySpaces :: "jsstring \<Rightarrow> jsstring option" where
  "greedySpaces [] = captureGroup []"
| "greedySpaces (c # cs) =
     (if isWhiteSpace c then
        (case greedySpaces cs of
           Some g \<Rightarrow> Some g
         | None \<Rightarrow> captureGroup (c # cs))
      else captureGroup (c # cs))"

definition headingMatch :: "jsstring \<Rightarrow> jsstring \<Rightarrow> jsstring option" where
  "headingMatch marker line =
     (if take (length marker) line = marker then
        (case drop (length marker) line of
           [] \<Rightarrow> None
         | c # cs \<Rightarrow> if isWhiteSpace c then greedySpaces cs else None)
      else None)"

definition matchH3 :: "jsstring \<Rightarrow> jsstring option" where
  "matchH3 line = headingMatch (js ''###'') line"

definition matchH2 :: "jsstring \<Rightarrow> jsstring option" where
  "matchH2 line = headingMatch (js ''##'') line"

text \<open>\<open>/^\s*$/.test(line)\<close>\<close>

definition isBlank :: "jsstring \<Rightarrow> bool" where
  "isBlank line = list_all isWhiteSpace line"

text \<open>\<open>/^\|/.test(row)\<close>\<close>

definition startsWithPipe :: "jsstring \<Rightarrow> bool" where
  "startsWithPipe line = (case line of [] \<Rightarrow> False | c # cs \<Rightarrow> c = pipe)"

text \<open>
  \<open>/\|\s*Network\s*\|\s*Address\s*\|/i.test(line)\<close>: the pattern is tried at every
  position. Each \<open>\s*\<close> is followed by a character that is no whitespace, so only its
  longest match can succeed.
\<close>

fun litCI :: "jsstring \<Rightarrow> jsstring \<Rightarrow> jsstring option" where
  "litCI [] s = Some s"
| "litCI (p # ps) [] = None"
| "litCI (p # ps) (c # cs) =
     (if canonicalize c = canonicalize p then litCI ps cs else None)"

definition skipSpaces :: "jsstring \<Rightarrow> jsstring option" where
  "skipSpaces s = Some (dropWhile isWhiteSpace s)"

definition headerAt :: "jsstring \<Rightarrow> jsstring option" where
  "headerAt s =
     litCI (js ''|'') s \<bind> skipSpaces \<bind> litCI (js ''Network'') \<bind> skipSpaces \<bind>
     litCI (js ''|'') \<bind> skipSpaces \<bind> litCI (js ''Address'') \<bind> skipSpaces \<bind>
     litCI (js ''|'')"

fun isTableHeader :: "jsstring \<Rightarrow> bool" where
  "isTableHeader [] = False"
| "isTableHeader (c # cs) =
     (case headerAt (c # cs) of
        Some r \<Rightarrow> True
      | None \<Rightarrow> isTableHeader cs)"


section \<open>splitMarkdownRow\<close>

text \<open>\<open>row.replace(/^\|/, '')\<close>\<close>

definition stripLeadingPipe :: "jsstring \<Rightarrow> jsstring" where
  "stripLeadingPipe row = (case row of [] \<Rightarrow> [] | c # cs \<Rightarrow> if c = pipe then cs else c # cs)"

text \<open>
  \<open>.replace(/\|\s*$/, '')\<close>: the first position where a pipe is followed by
  whitespace only up to the end; the match runs to the end of the string.
\<close>

fun stripTrailingPipe :: "jsstring \<Rightarrow> jsstring" where
  "stripTrailingPipe [] = []"
| "stripTrailingPipe (c # cs) =
     (if c = pipe \<and> list_all isWhiteSpace cs then [] else c # stripTrailingPipe cs)"

text \<open>\<open>.split('|')\<close>: the empty string gives one empty piece.\<close>

fun splitOn :: "code_unit \<Rightarrow> jsstring \<Rightarrow> jsstring list" where
  "splitOn sep [] = [[]]"
| "splitOn sep (c # cs) =
     (if c = sep then [] # splitOn sep cs
      else (case splitOn sep cs of
              [] \<Rightarrow> [[c]]
            | p # ps \<Rightarrow> (c # p) # ps))"

text \<open>
  \<open>cell.match(/\(([^)]+)\)/)\<close>: at a position holding an opening parenthesis, the
  greedy class takes every code unit up to the next closing parenthesis; the match needs
  at least one such code unit and the closing parenthesis itself.
\<close>

definition groupAt :: "jsstring \<Rightarrow> jsstring option" where
  "groupAt s =
     (case s of
        [] \<Rightarrow> None
      | c # cs \<Rightarrow>
          if c = lparen then
            (let body = takeWhile (\<lambda>d. d \<noteq> rparen) cs;
                 rest = dropWhile (\<lambda>d. d \<noteq> rparen) cs
             in if body = [] then None else if rest = [] then None else Some body)
          else None)"

fun firstGroup :: "jsstring \<Rightarrow> jsstring option" where
  "firstGroup [] = None"
| "firstGroup (c # cs) =
     (case groupAt (c # cs) of
        Some g \<Rightarrow> Some g
      | None \<Rightarrow> firstGroup cs)"

definition cleanCell :: "nat \<Rightarrow> jsstring \<Rightarrow> jsstring" where
  "cleanCell idx cell =
     (if idx = 2 then (case firstGroup cell of Some u \<Rightarrow> u | None \<Rightarrow> cell) else cell)"

definition rawCells :: "jsstring \<Rightarrow> jsstring list" where
  "rawCells row = splitOn pipe (stripTrailingPipe (stripLeadingPipe row))"

definition splitMarkdownRow :: "jsstring \<Rightarrow> jsstring list" where
  "splitMarkdownRow row =
     (let parts = map trim (rawCells row)
      in map (\<lambda>(idx, cell). cleanCell idx cell) (enumerate 0 parts))"


section \<open>The parsed model\<close>

record row =
  network :: jsstring
  address :: jsstring
  explorer :: jsstring
  args :: jsstring
  salt :: jsstring

record entry =
  category :: jsstring
  title :: jsstring
  rows :: "row list"

record parsed =
  entries :: "entry list"
  networks :: "jsstring set"
  categories :: "jsstring set"

text \<open>
  Reading an array out of range gives \<open>undefined\<close>, and calling a method on
  \<open>undefined\<close> throws a TypeError: the only way the parser could raise.
\<close>

datatype error = TypeError

definition lookup :: "'a list \<Rightarrow> nat \<Rightarrow> 'a option" where
  "lookup xs k = (if k < length xs then Some (xs ! k) else None)"


section \<open>findNearestCategory\<close>

text \<open>
  The loop \<open>for (k = index - 1; k >= 0; k--)\<close>; the argument of \<open>categoryFrom\<close> is
  \<open>k + 1\<close>.
\<close>

fun categoryFrom :: "jsstring list \<Rightarrow> nat \<Rightarrow> error + jsstring" where
  "categoryFrom lines 0 = Inr (js ''Uncategorized'')"
| "categoryFrom lines (Suc k) =
     (case lookup lines k of
        None \<Rightarrow> Inl TypeError
      | Some l \<Rightarrow>
          (case matchH2 l of
             Some g \<Rightarrow> Inr (trim g)
           | None \<Rightarrow> categoryFrom lines k))"

definition findNearestCategory :: "jsstring list \<Rightarrow> nat \<Rightarrow> error + jsstring" where
  "findNearestCategory lines index = categoryFrom lines index"


section \<open>parseMarkdown\<close>

text \<open>\<open>while (j < lines.length && /^\s*$/.test(lines[j])) j++\<close>\<close>

function skipBlank :: "jsstring list \<Rightarrow> nat \<Rightarrow> nat" where
  "skipBlank lines j =
     (if j < length lines \<and> isBlank (lines ! j) then skipBlank lines (j + 1) else j)"
  by pat_completeness auto
termination
  by (relation "measure (\<lambda>(lines, j). length lines - j)") auto

text \<open>
  The object literal built from the cells of a row; it is only built when there are at
  least five cells.
\<close>

definition rowOf :: "jsstring list \<Rightarrow> row" where
  "rowOf cells =
     \<lparr>network = cells ! 0, address = cells ! 1, explorer = cells ! 2,
      args = cells ! 3, salt = cells ! 4\<rparr>"

text \<open>
  The loop over the table rows. It returns the cursor, the rows pushed and the set of
  networks, which is shared by all entries.
\<close>

function tableRows ::
  "jsstring list \<Rightarrow> nat \<Rightarrow> row list \<Rightarrow> jsstring set \<Rightarrow> nat \<times> row list \<times> jsstring set" where
  "tableRows lines j rs nets =
     (if j < length lines then
        (if startsWithPipe (lines ! j) then
           (let cells = splitMarkdownRow (lines ! j) in
            if 5 \<le> length cells then
              (let obj = rowOf cells
               in tableRows lines (j + 1) (rs @ [obj])
                    (if network obj = [] then nets else insert (network obj) nets))
            else tableRows lines (j + 1) rs nets)
         else (j, rs, nets))
      else (j, rs, nets))"
  by pat_completeness auto
termination
  by (relation "measure (\<lambda>(lines, j, rs, nets). length lines - j)") auto

text \<open>
  One iteration of the outer loop at cursor \<open>i\<close>: the new cursor and the updated
  accumulators. The loop runs it only for \<open>i < lines.length\<close>; elsewhere
  \<open>line.match\<close> would be a call on \<open>undefined\<close>. The variables \<open>headerLine\<close>
  and \<open>sepLine\<close> of the source are never read.
\<close>

definition scanStep :: "jsstring list \<Rightarrow> nat \<Rightarrow> parsed \<Rightarrow> error + nat \<times> parsed" where
  "scanStep lines i st =
     (case lookup lines i of
        None \<Rightarrow> Inl TypeError
      | Some line \<Rightarrow>
          (case matchH3 line of
             None \<Rightarrow> Inr (i + 1, st)
           | Some g \<Rightarrow>
               (let ttl = trim g in
                case findNearestCategory lines i of
                  Inl e \<Rightarrow> Inl e
                | Inr cat \<Rightarrow>
                    (let st1 = st\<lparr>categories := insert cat (categories st)\<rparr>;
                         j = skipBlank lines (i + 1)
                     in if j < length lines \<and> isTableHeader (lines ! j) then
                          (case tableRows lines (j + 2) [] (networks st1) of
                             (j', rs, nets) \<Rightarrow>
                               Inr (j', st1\<lparr>entries := entries st1 @
                                              [\<lparr>category = cat, title = ttl, rows = rs\<rparr>],
                                            networks := nets\<rparr>))
                        else Inr (i + 1, st1)))))"

text \<open>
  The outer loop \<open>while (i < lines.length)\<close>. Its termination is proved below, from
  the fact that every iteration moves the cursor forward.
\<close>

function parseLoop :: "jsstring list \<Rightarrow> nat \<Rightarrow> parsed \<Rightarrow> error + parsed" where
  "parseLoop lines i st =
     (if i < length lines then
        (case scanStep lines i st of
           Inl e \<Rightarrow> Inl e
         | Inr (i', st') \<Rightarrow> parseLoop lines i' st')
      else Inr st)"
  by pat_completeness auto

definition parseMarkdown :: "jsstring \<Rightarrow> error + parsed" where
  "parseMarkdown md =
     parseLoop (splitLines md) 0 \<lparr>entries = [], networks = {}, categories = {}\<rparr>"

text \<open>
  Documents for the examples: lines joined by LF, and the accumulators the parser starts
  from.
\<close>

fun joinLines :: "jsstring list \<Rightarrow> jsstring" where
  "joinLines [] = []"
| "joinLines [l] = l"
| "joinLines (l # m # ls) = l @ 0x0A # joinLines (m # ls)"

definition emptyModel :: parsed where
  "emptyModel = \<lparr>entries = [], networks = {}, categories = {}\<rparr>"


section \<open>Notions used in the statements\<close>

text \<open>
  Names for stating what the row loop computes: the lines of the table starting at line
  \<open>j\<close> (the longest run of lines that begin with a pipe), the rows kept from such
  lines (those with at least five cells, in order), and the non-empty networks of rows.
\<close>

definition tableLines :: "jsstring list \<Rightarrow> nat \<Rightarrow> jsstring list" where
  "tableLines lines j = takeWhile startsWithPipe (drop j lines)"

definition keptRows :: "jsstring list \<Rightarrow> row list" where
  "keptRows ls = map rowOf (filter (\<lambda>cells. 5 \<le> length cells) (map splitMarkdownRow ls))"

definition namedNetworks :: "row list \<Rightarrow> jsstring set" where
  "namedNetworks rs = set (filter (\<lambda>n. n \<noteq> []) (map network rs))"

text \<open>
  A parenthesis group of a cell at position \<open>n\<close>: an opening parenthesis, then the
  text \<open>body\<close>, which is not empty and holds no closing parenthesis, then a closing
  parenthesis.
\<close>

definition parenGroupAt :: "jsstring \<Rightarrow> nat \<Rightarrow> jsstring \<Rightarrow> bool" where
  "parenGroupAt cell n body \<longleftrightarrow>
     body \<noteq> [] \<and> list_all (\<lambda>d. d \<noteq> rparen) body \<and>
     take (length body + 2) (drop n cell) = lparen # body @ [rparen]"

text \<open>
  A second-level heading line, said without the matcher: the line begins with \<open>##\<close>,
  then comes a whitespace character, and the text after \<open>##\<close> is not empty once
  trimmed and stays on the line (it holds no line terminator; a lone CR, LS or PS can be
  left inside a line by the split). A blank second-level line has only whitespace after
  \<open>##\<close>.
\<close>

definition secondLevelHeading :: "jsstring \<Rightarrow> bool" where
  "secondLevelHeading line \<longleftrightarrow>
     take 2 line = js ''##'' \<and>
     (case drop 2 line of [] \<Rightarrow> False | c # cs \<Rightarrow> isWhiteSpace c) \<and>
     trim (drop 2 line) \<noteq> [] \<and>
     list_all (\<lambda>c. \<not> isLineTerminator c) (trim (drop 2 line))"

definition blankSecondLevel :: "jsstring \<Rightarrow> bool" where
  "blankSecondLevel line \<longleftrightarrow>
     take 2 line = js ''##'' \<and> drop 2 line \<noteq> [] \<and> list_all isWhiteSpace (drop 2 line)"

text \<open>
  Line \<open>i\<close> is the heading line of entry \<open>e\<close>: it matches the third-level
  heading pattern with the title of \<open>e\<close>, the next non-blank line is a table
  header, the rows of \<open>e\<close> are those kept from the table under it, and the category
  of \<open>e\<close> is what \<open>findNearestCategory\<close> returns at \<open>i\<close>.
\<close>

definition headingOf :: "jsstring list \<Rightarrow> entry \<Rightarrow> nat \<Rightarrow> bool" where
  "headingOf lines e i \<longleftrightarrow>
     i < length lines \<and>
     (case matchH3 (lines ! i) of None \<Rightarrow> False | Some g \<Rightarrow> title e = trim g) \<and>
     skipBlank lines (Suc i) < length lines \<and>
     isTableHeader (lines ! skipBlank lines (Suc i)) \<and>
     rows e = keptRows (tableLines lines (skipBlank lines (Suc i) + 2)) \<and>
     findNearestCategory lines i = Inr (category e)"


section \<open>Every iteration moves the cursor forward\<close>

declare skipBlank.simps [simp del]
declare tableRows.simps [simp del]

lemma skipBlank_ge: "j \<le> skipBlank lines j"
proof (induction lines j rule: skipBlank.induct)
  case (1 lines j)
  show ?case
  proof (cases "j < length lines \<and> isBlank (lines ! j)")
    case True
    then have "j + 1 \<le> skipBlank lines (j + 1)" by (rule "1.IH")
    moreover from True have "skipBlank lines j = skipBlank lines (j + 1)"
      by (subst skipBlank.simps) simp
    ultimately show ?thesis by simp
  next
    case False
    then have "skipBlank lines j = j"
      by (subst skipBlank.simps) (simp only: False if_False)
    then show ?thesis by simp
  qed
qed

lemma tableRows_ge: "j \<le> fst (tableRows lines j rs nets)"
proof (induction lines j rs nets rule: tableRows.induct)
  case (1 lines j rs nets)
  let ?cells = "splitMarkdownRow (lines ! j)"
  let ?obj = "rowOf ?cells"
  consider (stop) "\<not> (j < length lines \<and> startsWithPipe (lines ! j))"
    | (push) "j < length lines" "startsWithPipe (lines ! j)" "5 \<le> length ?cells"
    | (drop) "j < length lines" "startsWithPipe (lines ! j)" "\<not> 5 \<le> length ?cells"
    by blast
  then show ?case
  proof cases
    case stop
    then have "tableRows lines j rs nets = (j, rs, nets)"
      by (subst tableRows.simps) auto
    then show ?thesis by simp
  next
    case push
    define nets' where "nets' = (if network ?obj = [] then nets else insert (network ?obj) nets)"
    from push have eq: "tableRows lines j rs nets = tableRows lines (j + 1) (rs @ [?obj]) nets'"
      by (subst tableRows.simps) (simp add: Let_def nets'_def)
    from push have "j + 1 \<le> fst (tableRows lines (j + 1) (rs @ [?obj]) nets')"
      unfolding nets'_def by (intro "1.IH"(1)) auto
    with eq show ?thesis by simp
  next
    case drop
    then have eq: "tableRows lines j rs nets = tableRows lines (j + 1) rs nets"
      by (subst tableRows.simps) (simp add: Let_def)
    from drop have "j + 1 \<le> fst (tableRows lines (j + 1) rs nets)"
      by (intro "1.IH"(2)) auto
    with eq show ?thesis by simp
  qed
qed

lemma categoryFrom_total: "index \<le> length lines \<Longrightarrow> \<exists>c. categoryFrom lines index = Inr c"
  by (induction index) (auto simp: lookup_def split: option.splits)

lemma scanStep_advances:
  assumes "i < length lines"
  shows "\<exists>i' st'. scanStep lines i st = Inr (i', st') \<and> i < i'"
proof (cases "matchH3 (lines ! i)")
  case None
  with assms show ?thesis by (simp add: scanStep_def lookup_def)
next
  case (Some g)
  from assms obtain cat where cat: "findNearestCategory lines i = Inr cat"
    using categoryFrom_total [of i lines] by (auto simp: findNearestCategory_def)
  define j where "j = skipBlank lines (i + 1)"
  obtain j' rs nets where tr: "tableRows lines (j + 2) [] (networks st) = (j', rs, nets)"
    by (cases "tableRows lines (j + 2) [] (networks st)") auto
  have "i + 1 \<le> j" unfolding j_def by (rule skipBlank_ge)
  moreover have "j + 2 \<le> j'"
    using tableRows_ge [of "j + 2" lines "[]" "networks st"] tr by simp
  ultimately have "i < j'" by linarith
  then show ?thesis
    using Some cat tr assms
    unfolding scanStep_def Let_def j_def [symmetric] lookup_def
    by (cases "j < length lines \<and> isTableHeader (lines ! j)") simp_all
qed

termination parseLoop
proof (relation "measure (\<lambda>(lines, i, st). length lines - i)")
  show "wf (measure (\<lambda>(lines, i, st). length lines - i))" by simp
next
  fix lines :: "jsstring list" and i st x2 x y
  assume "i < length lines" "scanStep lines i st = Inr x2" "(x, y) = x2"
  with scanStep_advances [of i lines st]
  show "((lines, x, y), lines, i, st) \<in> measure (\<lambda>(lines, i, st). length lines - i)"
    by auto
qed


section \<open>The heading text and the category\<close>

lemma dropWhile_all: "list_all P xs \<Longrightarrow> dropWhile P (xs @ ys) = dropWhile P ys"
  by (induction xs) auto

lemma trim_pad:
  assumes a: "list_all isWhiteSpace a" and b: "list_all isWhiteSpace b"
  shows "trim (a @ g @ b) = trim g"
proof (cases "list_all isWhiteSpace g")
  case True
  then have g: "dropWhile isWhiteSpace g = []"
    by (simp add: list_all_iff dropWhile_eq_Nil_conv)
  from a b True have "\<forall>x\<in>set (a @ g @ b). isWhiteSpace x"
    by (auto simp: list_all_iff)
  then have "dropWhile isWhiteSpace (a @ g @ b) = []"
    by (simp only: dropWhile_eq_Nil_conv)
  with g show ?thesis by (simp only: trim_def)
next
  case False
  then obtain x where x: "x \<in> set g" "\<not> isWhiteSpace x"
    by (auto simp: list_all_iff)
  have "dropWhile isWhiteSpace (a @ g @ b) = dropWhile isWhiteSpace (g @ b)"
    using a by (rule dropWhile_all)
  also have "\<dots> = dropWhile isWhiteSpace g @ b"
    using x by (simp add: dropWhile_append1)
  finally have "rev (dropWhile isWhiteSpace (a @ g @ b)) = rev b @ rev (dropWhile isWhiteSpace g)"
    by simp
  moreover have "list_all isWhiteSpace (rev b)"
    using b by (simp add: list_all_iff)
  ultimately show ?thesis
    by (simp add: trim_def dropWhile_all)
qed

lemma lazyDots_shape:
  "lazyDots acc r = Some g \<Longrightarrow> \<exists>m. g = acc @ take m r \<and> list_all isWhiteSpace (drop m r)"
proof (induction acc r rule: lazyDots.induct)
  case (1 acc)
  then show ?case by simp
next
  case (2 acc c cs)
  show ?case
  proof (cases "list_all isWhiteSpace (c # cs)")
    case True
    with 2 have "g = acc" by simp
    with True show ?thesis by (intro exI [of _ 0]) simp
  next
    case False
    with 2 have nl: "\<not> isLineTerminator c" and rec: "lazyDots (acc @ [c]) cs = Some g"
      by (auto split: if_splits)
    from "2.IH" [OF False nl rec] obtain m
      where "g = (acc @ [c]) @ take m cs" "list_all isWhiteSpace (drop m cs)" by blast
    then show ?thesis by (intro exI [of _ "Suc m"]) simp
  qed
qed

lemma captureGroup_shape:
  "captureGroup r = Some g \<Longrightarrow> \<exists>m. g = take m r \<and> list_all isWhiteSpace (drop m r)"
proof (cases r)
  case Nil
  assume "captureGroup r = Some g"
  with Nil show ?thesis by (simp add: captureGroup_def)
next
  case (Cons c cs)
  assume "captureGroup r = Some g"
  with Cons have "lazyDots [c] cs = Some g"
    by (auto simp: captureGroup_def split: if_splits)
  from lazyDots_shape [OF this] obtain m
    where "g = [c] @ take m cs" "list_all isWhiteSpace (drop m cs)" by blast
  with Cons show ?thesis by (intro exI [of _ "Suc m"]) simp
qed

lemma captureGroup_trim: "captureGroup r = Some g \<Longrightarrow> trim g = trim r"
proof -
  assume "captureGroup r = Some g"
  from captureGroup_shape [OF this] obtain m
    where g: "g = take m r" and ws: "list_all isWhiteSpace (drop m r)" by blast
  have "trim ([] @ g @ drop m r) = trim g"
    using ws by (intro trim_pad) simp_all
  with g show ?thesis by simp
qed

lemma trim_Cons_space: "isWhiteSpace c \<Longrightarrow> trim (c # s) = trim s"
  by (simp add: trim_def)

lemma greedySpaces_trim: "greedySpaces r = Some g \<Longrightarrow> trim g = trim r"
proof (induction r)
  case Nil
  then show ?case by (simp add: captureGroup_trim)
next
  case (Cons c cs)
  show ?case
  proof (cases "isWhiteSpace c \<and> greedySpaces cs \<noteq> None")
    case True
    with Cons.prems have "greedySpaces cs = Some g" by auto
    with Cons.IH True show ?thesis by (simp add: trim_Cons_space)
  next
    case False
    with Cons.prems have "captureGroup (c # cs) = Some g"
      by (auto split: if_splits option.splits)
    then show ?thesis by (rule captureGroup_trim)
  qed
qed

lemma headingMatch_trim:
  assumes "headingMatch marker line = Some g"
  shows "trim g = trim (drop (length marker) line)"
proof -
  from assms obtain c cs where d: "drop (length marker) line = c # cs"
    and c: "isWhiteSpace c" and g: "greedySpaces cs = Some g"
    by (auto simp: headingMatch_def split: if_splits list.splits)
  from g have "trim g = trim cs" by (rule greedySpaces_trim)
  with c d show ?thesis by (simp add: trim_Cons_space)
qed

lemma js_length [simp]: "length (js s) = length s"
  by (simp add: js_def)

lemma matchH3_title: "matchH3 line = Some g \<Longrightarrow> trim g = trim (drop 3 line)"
  using headingMatch_trim [of "js ''###''" line g] by (simp add: matchH3_def numeral_3_eq_3)

lemma matchH2_text: "matchH2 line = Some g \<Longrightarrow> trim g = trim (drop 2 line)"
  using headingMatch_trim [of "js ''##''" line g] by (simp add: matchH2_def numeral_2_eq_2)

lemma categoryFrom_nearest:
  assumes "k < index" "index \<le> length lines" "matchH2 (lines ! k) = Some g"
    and "\<forall>k'. k < k' \<and> k' < index \<longrightarrow> matchH2 (lines ! k') = None"
  shows "categoryFrom lines index = Inr (trim g)"
  using assms
proof (induction index)
  case 0
  then show ?case by simp
next
  case (Suc n)
  show ?case
  proof (cases "k = n")
    case True
    with Suc.prems show ?thesis by (simp add: lookup_def)
  next
    case False
    with Suc.prems have kn: "k < n" and none: "matchH2 (lines ! n) = None" by auto
    with Suc.prems have "categoryFrom lines n = Inr (trim g)"
      by (intro Suc.IH) auto
    with none Suc.prems show ?thesis by (simp add: lookup_def)
  qed
qed

lemma categoryFrom_sentinel:
  assumes "index \<le> length lines" "\<forall>k<index. matchH2 (lines ! k) = None"
  shows "categoryFrom lines index = Inr (js ''Uncategorized'')"
  using assms by (induction index) (auto simp: lookup_def)

lemma categoryFrom_cases:
  assumes "index \<le> length lines"
  shows "(\<exists>k g. k < index \<and> matchH2 (lines ! k) = Some g \<and>
            (\<forall>k'. k < k' \<and> k' < index \<longrightarrow> matchH2 (lines ! k') = None) \<and>
            categoryFrom lines index = Inr (trim (drop 2 (lines ! k)))) \<or>
         ((\<forall>k<index. matchH2 (lines ! k) = None) \<and>
            categoryFrom lines index = Inr (js ''Uncategorized''))"
  using assms
proof (induction index)
  case 0
  then show ?case by simp
next
  case (Suc n)
  show ?case
  proof (cases "matchH2 (lines ! n)")
    case None
    from Suc have IH: "(\<exists>k g. k < n \<and> matchH2 (lines ! k) = Some g \<and>
            (\<forall>k'. k < k' \<and> k' < n \<longrightarrow> matchH2 (lines ! k') = None) \<and>
            categoryFrom lines n = Inr (trim (drop 2 (lines ! k)))) \<or>
         ((\<forall>k<n. matchH2 (lines ! k) = None) \<and>
            categoryFrom lines n = Inr (js ''Uncategorized''))" by simp
    have eq: "categoryFrom lines (Suc n) = categoryFrom lines n"
      using None Suc.prems by (simp add: lookup_def)
    from IH show ?thesis
    proof
      assume "\<exists>k g. k < n \<and> matchH2 (lines ! k) = Some g \<and>
            (\<forall>k'. k < k' \<and> k' < n \<longrightarrow> matchH2 (lines ! k') = None) \<and>
            categoryFrom lines n = Inr (trim (drop 2 (lines ! k)))"
      then obtain k g where k: "k < n" "matchH2 (lines ! k) = Some g"
        "\<forall>k'. k < k' \<and> k' < n \<longrightarrow> matchH2 (lines ! k') = None"
        "categoryFrom lines n = Inr (trim (drop 2 (lines ! k)))" by blast
      have "\<forall>k'. k < k' \<and> k' < Suc n \<longrightarrow> matchH2 (lines ! k') = None"
        using k(3) None by (auto simp: less_Suc_eq)
      with k eq show ?thesis by (intro disjI1 exI [of _ k] exI [of _ g]) simp
    next
      assume "(\<forall>k<n. matchH2 (lines ! k) = None) \<and>
            categoryFrom lines n = Inr (js ''Uncategorized'')"
      with None eq show ?thesis by (auto simp: less_Suc_eq)
    qed
  next
    case (Some g)
    then have "categoryFrom lines (Suc n) = Inr (trim (drop 2 (lines ! n)))"
      using Suc.prems by (simp add: lookup_def matchH2_text)
    moreover have "\<forall>k'. n < k' \<and> k' < Suc n \<longrightarrow> matchH2 (lines ! k') = None"
      by auto
    ultimately show ?thesis
      using Some by (intro disjI1 exI [of _ n] exI [of _ g]) simp
  qed
qed


section \<open>The outer loop returns, and keeps invariants\<close>

lemma parseLoop_total: "\<exists>r. parseLoop lines i st = Inr r"
proof (induction lines i st rule: parseLoop.induct)
  case (1 lines i st)
  show ?case
  proof (cases "i < length lines")
    case True
    from scanStep_advances [OF True, of st] obtain i' st'
      where step: "scanStep lines i st = Inr (i', st')" by blast
    from "1.IH" [OF True step refl] obtain r where "parseLoop lines i' st' = Inr r" by blast
    with True step show ?thesis by (subst parseLoop.simps) simp
  next
    case False
    then show ?thesis by (subst parseLoop.simps) simp
  qed
qed

lemma parseLoop_invariant_aux:
  "parseLoop lines i st = Inr r \<Longrightarrow> I st \<Longrightarrow>
   (\<forall>i st i' st'. i < length lines \<and> I st \<and> scanStep lines i st = Inr (i', st') \<longrightarrow> I st') \<Longrightarrow>
   I r"
proof (induction lines i st rule: parseLoop.induct)
  case (1 lines i st)
  show ?case
  proof (cases "i < length lines")
    case True
    from scanStep_advances [OF True, of st] obtain i' st'
      where s: "scanStep lines i st = Inr (i', st')" by blast
    have "parseLoop lines i st = parseLoop lines i' st'"
      using True s by (subst parseLoop.simps) simp
    with "1.prems" have "parseLoop lines i' st' = Inr r" by simp
    moreover have "I st'" using "1.prems"(2,3) True s by blast
    ultimately show ?thesis using "1.IH" [OF True s refl] "1.prems"(3) by blast
  next
    case False
    with "1.prems" show ?thesis by (subst (asm) parseLoop.simps) simp
  qed
qed

lemma parseLoop_invariant:
  assumes "parseLoop lines i st = Inr r" and "I st"
    and "\<And>i st i' st'. i < length lines \<Longrightarrow> I st \<Longrightarrow> scanStep lines i st = Inr (i', st') \<Longrightarrow> I st'"
  shows "I r"
  using assms by (intro parseLoop_invariant_aux [of lines i st r I]) blast+


section \<open>What one iteration does\<close>

lemma tableLines_stop:
  "\<not> (j < length lines \<and> startsWithPipe (lines ! j)) \<Longrightarrow> tableLines lines j = []"
  by (cases "j < length lines") (simp_all add: tableLines_def Cons_nth_drop_Suc [symmetric])

lemma tableLines_step:
  "j < length lines \<Longrightarrow> startsWithPipe (lines ! j) \<Longrightarrow>
   tableLines lines j = lines ! j # tableLines lines (Suc j)"
  by (simp add: tableLines_def Cons_nth_drop_Suc [symmetric])

lemma tableRows_stop:
  "\<not> (j < length lines \<and> startsWithPipe (lines ! j)) \<Longrightarrow> tableRows lines j rs nets = (j, rs, nets)"
  by (subst tableRows.simps) auto

lemma tableRows_push:
  "j < length lines \<Longrightarrow> startsWithPipe (lines ! j) \<Longrightarrow> 5 \<le> length (splitMarkdownRow (lines ! j)) \<Longrightarrow>
   tableRows lines j rs nets =
     tableRows lines (Suc j) (rs @ [rowOf (splitMarkdownRow (lines ! j))])
       (if network (rowOf (splitMarkdownRow (lines ! j))) = [] then nets
        else insert (network (rowOf (splitMarkdownRow (lines ! j)))) nets)"
  by (subst tableRows.simps) (simp add: Let_def)

lemma tableRows_drop:
  "j < length lines \<Longrightarrow> startsWithPipe (lines ! j) \<Longrightarrow> \<not> 5 \<le> length (splitMarkdownRow (lines ! j)) \<Longrightarrow>
   tableRows lines j rs nets = tableRows lines (Suc j) rs nets"
  by (subst tableRows.simps) (simp add: Let_def)

lemma tableRows_eq:
  "tableRows lines j rs nets =
     (j + length (tableLines lines j), rs @ keptRows (tableLines lines j),
      nets \<union> namedNetworks (keptRows (tableLines lines j)))"
proof (induction lines j rs nets rule: tableRows.induct)
  case (1 lines j rs nets)
  let ?cells = "splitMarkdownRow (lines ! j)"
  consider (stop) "\<not> (j < length lines \<and> startsWithPipe (lines ! j))"
    | (push) "j < length lines" "startsWithPipe (lines ! j)" "5 \<le> length ?cells"
    | (drop) "j < length lines" "startsWithPipe (lines ! j)" "\<not> 5 \<le> length ?cells"
    by blast
  then show ?case
  proof cases
    case stop
    then show ?thesis
      by (simp add: tableRows_stop tableLines_stop keptRows_def namedNetworks_def)
  next
    case push
    define nets' where "nets' = (if network (rowOf ?cells) = [] then nets else insert (network (rowOf ?cells)) nets)"
    have IH: "tableRows lines (j + 1) (rs @ [rowOf ?cells]) nets' =
      (j + 1 + length (tableLines lines (j + 1)),
       (rs @ [rowOf ?cells]) @ keptRows (tableLines lines (j + 1)),
       nets' \<union> namedNetworks (keptRows (tableLines lines (j + 1))))"
      unfolding nets'_def using push by (intro "1.IH"(1)) auto
    have kept: "keptRows (tableLines lines j) = rowOf ?cells # keptRows (tableLines lines (Suc j))"
      using push by (simp add: tableLines_step keptRows_def)
    have "tableRows lines j rs nets = tableRows lines (Suc j) (rs @ [rowOf ?cells]) nets'"
      unfolding nets'_def using push by (rule tableRows_push)
    with IH kept push show ?thesis
      by (auto simp: tableLines_step nets'_def namedNetworks_def)
  next
    case drop
    have IH: "tableRows lines (j + 1) rs nets =
      (j + 1 + length (tableLines lines (j + 1)), rs @ keptRows (tableLines lines (j + 1)),
       nets \<union> namedNetworks (keptRows (tableLines lines (j + 1))))"
      using drop by (intro "1.IH"(2)) auto
    have kept: "keptRows (tableLines lines j) = keptRows (tableLines lines (Suc j))"
      using drop by (simp add: tableLines_step keptRows_def)
    have "tableRows lines j rs nets = tableRows lines (Suc j) rs nets"
      using drop by (rule tableRows_drop)
    with IH kept drop show ?thesis
      by (simp add: tableLines_step)
  qed
qed

lemma scanStep_plain:
  "i < length lines \<Longrightarrow> matchH3 (lines ! i) = None \<Longrightarrow> scanStep lines i st = Inr (Suc i, st)"
  by (simp add: scanStep_def lookup_def)

lemma scanStep_no_table:
  assumes "i < length lines" "matchH3 (lines ! i) = Some g" "findNearestCategory lines i = Inr cat"
    and "\<not> (skipBlank lines (Suc i) < length lines \<and> isTableHeader (lines ! skipBlank lines (Suc i)))"
  shows "scanStep lines i st = Inr (Suc i, st\<lparr>categories := insert cat (categories st)\<rparr>)"
  using assms by (auto simp: scanStep_def Let_def lookup_def)

lemma scanStep_table:
  assumes "i < length lines" "matchH3 (lines ! i) = Some g" "findNearestCategory lines i = Inr cat"
    and "skipBlank lines (Suc i) < length lines" "isTableHeader (lines ! skipBlank lines (Suc i))"
  shows "scanStep lines i st =
     Inr (skipBlank lines (Suc i) + 2 + length (tableLines lines (skipBlank lines (Suc i) + 2)),
          st\<lparr>categories := insert cat (categories st),
             entries := entries st @
               [\<lparr>category = cat, title = trim g,
                 rows = keptRows (tableLines lines (skipBlank lines (Suc i) + 2))\<rparr>],
             networks := networks st \<union>
               namedNetworks (keptRows (tableLines lines (skipBlank lines (Suc i) + 2)))\<rparr>)"
  using assms by (simp add: scanStep_def Let_def tableRows_eq lookup_def)


section \<open>The cells of a row\<close>

lemma parenGroupAt_Suc: "parenGroupAt (c # cs) (Suc n) b = parenGroupAt cs n b"
  by (simp add: parenGroupAt_def)

lemma groupAt_Some: "groupAt s = Some body \<Longrightarrow> parenGroupAt s 0 body"
proof -
  assume a: "groupAt s = Some body"
  then obtain cs where s: "s = lparen # cs"
    by (cases s) (auto simp: groupAt_def split: if_splits)
  from a s have body: "body = takeWhile (\<lambda>d. d \<noteq> rparen) cs" and ne: "body \<noteq> []"
    and rest: "dropWhile (\<lambda>d. d \<noteq> rparen) cs \<noteq> []"
    by (auto simp: groupAt_def Let_def split: if_splits)
  from rest obtain post where post: "dropWhile (\<lambda>d. d \<noteq> rparen) cs = rparen # post"
    by (cases "dropWhile (\<lambda>d. d \<noteq> rparen) cs") (auto dest: dropWhile_eq_Cons_conv [THEN iffD1])
  have "cs = body @ rparen # post"
    using takeWhile_dropWhile_id [of "\<lambda>d. d \<noteq> rparen" cs] body post by simp
  moreover have "list_all (\<lambda>d. d \<noteq> rparen) body"
    unfolding body list_all_iff by (auto dest: set_takeWhileD)
  ultimately show ?thesis using s ne by (simp add: parenGroupAt_def)
qed

lemma groupAt_None: "groupAt s = None \<Longrightarrow> \<not> parenGroupAt s 0 b"
proof
  assume n: "groupAt s = None" and p: "parenGroupAt s 0 b"
  from p have b: "b \<noteq> []" "list_all (\<lambda>d. d \<noteq> rparen) b"
    and t: "take (length b + 2) s = lparen # b @ [rparen]"
    by (simp_all add: parenGroupAt_def)
  have "take (length b + 2) s @ drop (length b + 2) s = s"
    by (rule append_take_drop_id)
  then have "s = (lparen # b @ [rparen]) @ drop (length b + 2) s"
    by (simp only: t)
  then obtain post where s: "s = lparen # b @ rparen # post" by simp
  have tw: "takeWhile (\<lambda>d. d \<noteq> rparen) (b @ rparen # post) = b"
    using b(2) by (simp add: takeWhile_append2 list_all_iff)
  have dw: "dropWhile (\<lambda>d. d \<noteq> rparen) (b @ rparen # post) = rparen # post"
    using b(2) by (simp add: dropWhile_append2 list_all_iff)
  from s b tw dw have "groupAt s = Some b"
    by (simp add: groupAt_def Let_def)
  with n show False by simp
qed

lemma firstGroup_Some:
  "firstGroup s = Some body \<Longrightarrow>
   \<exists>n. parenGroupAt s n body \<and> (\<forall>m<n. \<forall>b. \<not> parenGroupAt s m b)"
proof (induction s)
  case Nil
  then show ?case by simp
next
  case (Cons c cs)
  show ?case
  proof (cases "groupAt (c # cs)")
    case None
    with Cons.prems have "firstGroup cs = Some body" by simp
    from Cons.IH [OF this] obtain n
      where n: "parenGroupAt cs n body" "\<forall>m<n. \<forall>b. \<not> parenGroupAt cs m b" by blast
    have "\<forall>m<Suc n. \<forall>b. \<not> parenGroupAt (c # cs) m b"
    proof (intro allI impI)
      fix m b
      assume "m < Suc n"
      then show "\<not> parenGroupAt (c # cs) m b"
        using n(2) None by (cases m) (auto simp: parenGroupAt_Suc dest: groupAt_None)
    qed
    with n(1) show ?thesis
      by (intro exI [of _ "Suc n"]) (simp add: parenGroupAt_Suc)
  next
    case (Some g)
    with Cons.prems have "g = body" by simp
    with Some show ?thesis by (intro exI [of _ 0]) (simp add: groupAt_Some)
  qed
qed

lemma firstGroup_None: "firstGroup s = None \<Longrightarrow> \<not> parenGroupAt s n b"
proof (induction s arbitrary: n)
  case Nil
  then show ?case by (simp add: parenGroupAt_def)
next
  case (Cons c cs)
  then have g: "groupAt (c # cs) = None" and f: "firstGroup cs = None"
    by (auto split: option.splits)
  show ?case
  proof (cases n)
    case 0
    with g show ?thesis by (simp add: groupAt_None)
  next
    case (Suc m)
    with Cons.IH [OF f] show ?thesis by (simp add: parenGroupAt_Suc)
  qed
qed

lemma splitMarkdownRow_length: "length (splitMarkdownRow row) = length (rawCells row)"
  by (simp add: splitMarkdownRow_def)

lemma splitMarkdownRow_nth:
  "i < length (rawCells row) \<Longrightarrow> splitMarkdownRow row ! i = cleanCell i (trim (rawCells row ! i))"
  by (simp add: splitMarkdownRow_def nth_enumerate_eq)


lemma findNearestCategory_total:
  "i \<le> length lines \<Longrightarrow> \<exists>cat. findNearestCategory lines i = Inr cat"
  using categoryFrom_total [of i lines] by (simp add: findNearestCategory_def)

lemma scanStep_cases:
  assumes "i < length lines" and "scanStep lines i st = Inr (i', st')"
  obtains
    (plain) "matchH3 (lines ! i) = None" "i' = Suc i" "st' = st"
  | (no_table) g cat where "matchH3 (lines ! i) = Some g" "findNearestCategory lines i = Inr cat"
      "\<not> (skipBlank lines (Suc i) < length lines \<and> isTableHeader (lines ! skipBlank lines (Suc i)))"
      "i' = Suc i" "st' = st\<lparr>categories := insert cat (categories st)\<rparr>"
  | (table) g cat where "matchH3 (lines ! i) = Some g" "findNearestCategory lines i = Inr cat"
      "skipBlank lines (Suc i) < length lines" "isTableHeader (lines ! skipBlank lines (Suc i))"
      "i' = skipBlank lines (Suc i) + 2 + length (tableLines lines (skipBlank lines (Suc i) + 2))"
      "st' = st\<lparr>categories := insert cat (categories st),
             entries := entries st @
               [\<lparr>category = cat, title = trim g,
                 rows = keptRows (tableLines lines (skipBlank lines (Suc i) + 2))\<rparr>],
             networks := networks st \<union>
               namedNetworks (keptRows (tableLines lines (skipBlank lines (Suc i) + 2)))\<rparr>"
proof (cases "matchH3 (lines ! i)")
  case None
  with assms plain show ?thesis by (simp add: scanStep_plain)
next
  case (Some g)
  from assms(1) obtain cat where cat: "findNearestCategory lines i = Inr cat"
    using findNearestCategory_total [of i lines] by auto
  show ?thesis
  proof (cases "skipBlank lines (Suc i) < length lines \<and> isTableHeader (lines ! skipBlank lines (Suc i))")
    case True
    then have h: "skipBlank lines (Suc i) < length lines" "isTableHeader (lines ! skipBlank lines (Suc i))"
      by simp_all
    from scanStep_table [OF assms(1) Some cat h, of st] assms(2) table [OF Some cat h]
    show ?thesis by simp
  next
    case False
    from scanStep_no_table [OF assms(1) Some cat False, of st] assms(2)
      no_table [OF Some cat False]
    show ?thesis by simp
  qed
qed

lemma keptRows_append: "keptRows (a @ b) = keptRows a @ keptRows b"
  by (simp add: keptRows_def)

lemma namedNetworks_append: "namedNetworks (a @ b) = namedNetworks a \<union> namedNetworks b"
  by (simp add: namedNetworks_def)

lemma tableLines_nth:
  assumes "n < length (tableLines lines k)"
  shows "tableLines lines k ! n = lines ! (k + n)" and "k + n < length lines"
    and "startsWithPipe (lines ! (k + n))"
proof -
  have le: "length (tableLines lines k) \<le> length (drop k lines)"
    unfolding tableLines_def by (rule length_takeWhile_le)
  with assms have n: "n < length lines - k" by simp
  then show "k + n < length lines" by simp
  have "tableLines lines k ! n = drop k lines ! n"
    using assms unfolding tableLines_def by (rule takeWhile_nth)
  also have "\<dots> = lines ! (k + n)" using n by simp
  finally show eq: "tableLines lines k ! n = lines ! (k + n)" .
  have "tableLines lines k ! n \<in> set (takeWhile startsWithPipe (drop k lines))"
    using assms unfolding tableLines_def by (rule nth_mem)
  then have "startsWithPipe (tableLines lines k ! n)" by (rule set_takeWhileD [THEN conjunct2])
  with eq show "startsWithPipe (lines ! (k + n))" by simp
qed


section \<open>Entries and the headings they come from\<close>

lemma entries_have_headings:
  assumes "parseLoop lines i st = Inr r" and "list_all (\<lambda>e. \<exists>i. headingOf lines e i) (entries st)"
  shows "list_all (\<lambda>e. \<exists>i. headingOf lines e i) (entries r)"
  using assms(1,2)
proof (rule parseLoop_invariant [where I = "\<lambda>st. list_all (\<lambda>e. \<exists>i. headingOf lines e i) (entries st)"])
  fix i st i' st'
  assume i: "i < length lines"
    and inv: "list_all (\<lambda>e. \<exists>i. headingOf lines e i) (entries st)"
    and step: "scanStep lines i st = Inr (i', st')"
  from i step show "list_all (\<lambda>e. \<exists>i. headingOf lines e i) (entries st')"
  proof (cases rule: scanStep_cases)
    case plain
    with inv show ?thesis by simp
  next
    case (no_table g cat)
    with inv show ?thesis by simp
  next
    case (table g cat)
    let ?e = "\<lparr>category = cat, title = trim g,
                 rows = keptRows (tableLines lines (skipBlank lines (Suc i) + 2))\<rparr>"
    have "headingOf lines ?e i"
      using i table(1-4) by (simp add: headingOf_def)
    then have "\<exists>i. headingOf lines ?e i" ..
    with inv table(6) show ?thesis by simp
  qed
qed

lemma parseMarkdown_total: "\<exists>r. parseMarkdown md = Inr r"
  unfolding parseMarkdown_def by (rule parseLoop_total)

lemma facets_of_parseLoop:
  assumes "parseLoop lines i st = Inr r"
    and "networks st = namedNetworks (concat (map rows (entries st))) \<and>
         category ` set (entries st) \<subseteq> categories st"
  shows "networks r = namedNetworks (concat (map rows (entries r))) \<and>
         category ` set (entries r) \<subseteq> categories r"
  using assms(1,2)
proof (rule parseLoop_invariant [where I = "\<lambda>st. networks st = namedNetworks (concat (map rows (entries st))) \<and>
         category ` set (entries st) \<subseteq> categories st"])
  fix i st i' st'
  assume i: "i < length lines"
    and inv: "networks st = namedNetworks (concat (map rows (entries st))) \<and>
         category ` set (entries st) \<subseteq> categories st"
    and step: "scanStep lines i st = Inr (i', st')"
  from i step show "networks st' = namedNetworks (concat (map rows (entries st'))) \<and>
         category ` set (entries st') \<subseteq> categories st'"
  proof (cases rule: scanStep_cases)
    case plain
    with inv show ?thesis by simp
  next
    case (no_table g cat)
    with inv show ?thesis by auto
  next
    case (table g cat)
    with inv show ?thesis by (auto simp: namedNetworks_append)
  qed
qed

lemma facets_of_parseMarkdown:
  assumes "parseMarkdown md = Inr r"
  shows "networks r = namedNetworks (concat (map rows (entries r)))"
    and "category ` set (entries r) \<subseteq> categories r"
  using facets_of_parseLoop [of "splitLines md" 0 _ r] assms
  by (simp_all add: parseMarkdown_def namedNetworks_def)


section \<open>Second-level headings and the category of an entry\<close>

text \<open>
  The pattern \<open>/^##\s+(.+?)\s*$/\<close> matches every second-level heading line, and
  beside them only blank second-level lines (those with two or more whitespace characters
  after \<open>##\<close>, one of them no line terminator).
\<close>

lemma set_trim: "set (trim s) \<subseteq> set s"
proof
  fix x
  assume "x \<in> set (trim s)"
  then have "x \<in> set (dropWhile isWhiteSpace (rev (dropWhile isWhiteSpace s)))"
    by (simp add: trim_def)
  then have "x \<in> set (rev (dropWhile isWhiteSpace s))" by (rule set_dropWhileD)
  then have "x \<in> set (dropWhile isWhiteSpace s)" by simp
  then show "x \<in> set s" by (rule set_dropWhileD)
qed

lemma trim_blank: "list_all isWhiteSpace s \<Longrightarrow> trim s = []"
proof -
  assume "list_all isWhiteSpace s"
  then have "\<forall>x\<in>set s. isWhiteSpace x" by (simp add: list_all_iff)
  then have d: "dropWhile isWhiteSpace s = []" by (simp only: dropWhile_eq_Nil_conv)
  show ?thesis by (simp only: trim_def d rev.simps dropWhile.simps)
qed

lemma trim_Nil_blank: "trim s = [] \<Longrightarrow> list_all isWhiteSpace s"
proof -
  assume "trim s = []"
  then have "dropWhile isWhiteSpace (rev (dropWhile isWhiteSpace s)) = []"
    by (simp add: trim_def)
  then have "\<forall>x\<in>set (rev (dropWhile isWhiteSpace s)). isWhiteSpace x"
    by (simp only: dropWhile_eq_Nil_conv)
  then have a: "\<forall>x\<in>set (dropWhile isWhiteSpace s). isWhiteSpace x" by simp
  have "dropWhile isWhiteSpace s = []"
  proof (cases "dropWhile isWhiteSpace s")
    case Nil
    then show ?thesis .
  next
    case (Cons y ys)
    then have "\<not> isWhiteSpace y" by (metis hd_dropWhile list.sel(1) list.simps(3))
    moreover from Cons a have "isWhiteSpace y" by simp
    ultimately show ?thesis by simp
  qed
  then show ?thesis by (simp add: dropWhile_eq_Nil_conv list_all_iff)
qed

lemma trim_decomp:
  "\<exists>w t. s = w @ trim s @ t \<and> list_all isWhiteSpace w \<and> list_all isWhiteSpace t"
proof -
  let ?d = "dropWhile isWhiteSpace s"
  have 1: "s = takeWhile isWhiteSpace s @ ?d" by simp
  have "rev (takeWhile isWhiteSpace (rev ?d) @ dropWhile isWhiteSpace (rev ?d)) = rev (rev ?d)"
    by (simp only: takeWhile_dropWhile_id)
  then have "rev (dropWhile isWhiteSpace (rev ?d)) @ rev (takeWhile isWhiteSpace (rev ?d)) = ?d"
    by (simp only: rev_append rev_rev_ident)
  then have 2: "?d = trim s @ rev (takeWhile isWhiteSpace (rev ?d))"
    by (simp only: trim_def)
  have w: "list_all isWhiteSpace (takeWhile isWhiteSpace s)"
    by (auto simp: list_all_iff dest: set_takeWhileD)
  have t: "list_all isWhiteSpace (rev (takeWhile isWhiteSpace (rev ?d)))"
    by (auto simp: list_all_iff dest: set_takeWhileD)
  from 1 2 have "s = takeWhile isWhiteSpace s @ trim s @ rev (takeWhile isWhiteSpace (rev ?d))"
    by simp
  with w t show ?thesis by blast
qed

lemma lazyDots_chars:
  "lazyDots acc r = Some g \<Longrightarrow> list_all (\<lambda>c. \<not> isLineTerminator c) acc \<Longrightarrow>
   list_all (\<lambda>c. \<not> isLineTerminator c) g"
proof (induction acc r rule: lazyDots.induct)
  case (1 acc)
  then show ?case by simp
next
  case (2 acc c cs)
  show ?case
  proof (cases "list_all isWhiteSpace (c # cs)")
    case True
    with 2 show ?thesis by simp
  next
    case False
    with "2.prems" have nl: "\<not> isLineTerminator c" and r: "lazyDots (acc @ [c]) cs = Some g"
      by (auto split: if_splits)
    from "2.prems"(2) nl have "list_all (\<lambda>c. \<not> isLineTerminator c) (acc @ [c])" by simp
    with "2.IH" [OF False nl r] show ?thesis .
  qed
qed

lemma captureGroup_chars:
  "captureGroup r = Some g \<Longrightarrow> list_all (\<lambda>c. \<not> isLineTerminator c) g"
  by (cases r) (auto simp: captureGroup_def split: if_splits dest: lazyDots_chars)

lemma greedySpaces_chars:
  "greedySpaces r = Some g \<Longrightarrow> list_all (\<lambda>c. \<not> isLineTerminator c) g"
proof (induction r)
  case Nil
  then show ?case by (simp add: captureGroup_chars)
next
  case (Cons c cs)
  show ?case
  proof (cases "isWhiteSpace c \<and> greedySpaces cs \<noteq> None")
    case True
    with Cons.prems have "greedySpaces cs = Some g" by auto
    then show ?thesis by (rule Cons.IH)
  next
    case False
    with Cons.prems have "captureGroup (c # cs) = Some g"
      by (auto split: if_splits option.splits)
    then show ?thesis by (rule captureGroup_chars)
  qed
qed

lemma lazyDots_complete:
  "list_all (\<lambda>c. \<not> isLineTerminator c) b \<Longrightarrow> list_all isWhiteSpace t \<Longrightarrow>
   \<exists>g. lazyDots acc (b @ t) = Some g"
proof (induction b arbitrary: acc)
  case Nil
  then show ?case by (cases t) simp_all
next
  case (Cons y b)
  then show ?case by simp
qed

lemma captureGroup_complete:
  "b \<noteq> [] \<Longrightarrow> list_all (\<lambda>c. \<not> isLineTerminator c) b \<Longrightarrow> list_all isWhiteSpace t \<Longrightarrow>
   \<exists>g. captureGroup (b @ t) = Some g"
  by (cases b) (simp_all add: captureGroup_def lazyDots_complete)

lemma greedySpaces_complete:
  "list_all isWhiteSpace w \<Longrightarrow> b \<noteq> [] \<Longrightarrow> list_all (\<lambda>c. \<not> isLineTerminator c) b \<Longrightarrow>
   list_all isWhiteSpace t \<Longrightarrow> \<exists>g. greedySpaces (w @ b @ t) = Some g"
proof (induction w)
  case Nil
  then obtain g where g: "captureGroup (b @ t) = Some g"
    using captureGroup_complete by blast
  from Nil(2) obtain x xs where b: "b = x # xs" by (cases b) auto
  show ?case
  proof (cases "isWhiteSpace x \<and> greedySpaces (xs @ t) \<noteq> None")
    case True
    with b show ?thesis by auto
  next
    case False
    with b g show ?thesis by (auto split: option.splits)
  qed
next
  case (Cons x w)
  then obtain g where "greedySpaces (w @ b @ t) = Some g" by auto
  with Cons.prems(1) show ?case by simp
qed

lemma matchH2_heading_or_blank:
  assumes "matchH2 line = Some g"
  shows "secondLevelHeading line \<or> blankSecondLevel line"
proof -
  from assms have pre: "take 2 line = js ''##''"
    by (auto simp: matchH2_def headingMatch_def numeral_2_eq_2 split: if_splits)
  from assms obtain c cs where d: "drop 2 line = c # cs" and c: "isWhiteSpace c"
    and gs: "greedySpaces cs = Some g"
    by (auto simp: matchH2_def headingMatch_def numeral_2_eq_2 split: if_splits list.splits)
  have tr: "trim g = trim (drop 2 line)" using assms by (rule matchH2_text)
  have "list_all (\<lambda>c. \<not> isLineTerminator c) g" using gs by (rule greedySpaces_chars)
  then have chars: "list_all (\<lambda>c. \<not> isLineTerminator c) (trim (drop 2 line))"
    using set_trim [of g] tr by (auto simp: list_all_iff)
  show ?thesis
  proof (cases "trim (drop 2 line) = []")
    case True
    then have "list_all isWhiteSpace (drop 2 line)" by (rule trim_Nil_blank)
    with pre d show ?thesis by (simp add: blankSecondLevel_def)
  next
    case False
    with pre d c chars show ?thesis by (simp add: secondLevelHeading_def)
  qed
qed

lemma secondLevelHeading_matches:
  assumes "secondLevelHeading line"
  shows "\<exists>g. matchH2 line = Some g"
proof -
  from assms have pre: "take 2 line = js ''##''" by (simp add: secondLevelHeading_def)
  from assms obtain c cs where d: "drop 2 line = c # cs" and c: "isWhiteSpace c"
    by (auto simp: secondLevelHeading_def split: list.splits)
  from assms have ne: "trim (drop 2 line) \<noteq> []"
    and chars: "list_all (\<lambda>c. \<not> isLineTerminator c) (trim (drop 2 line))"
    by (simp_all add: secondLevelHeading_def)
  have tc: "trim (c # cs) = trim cs" using c by (rule trim_Cons_space)
  from trim_decomp [of cs] obtain w t
    where cs: "cs = w @ trim cs @ t" "list_all isWhiteSpace w" "list_all isWhiteSpace t"
    by blast
  from ne chars d tc have "trim cs \<noteq> []" "list_all (\<lambda>c. \<not> isLineTerminator c) (trim cs)"
    by simp_all
  with cs(2,3) obtain g where "greedySpaces (w @ trim cs @ t) = Some g"
    using greedySpaces_complete by blast
  with cs(1) have "greedySpaces cs = Some g" by simp
  with pre d c show ?thesis
    by (simp add: matchH2_def headingMatch_def numeral_2_eq_2)
qed

lemma secondLevelHeading_not_blank: "secondLevelHeading line \<Longrightarrow> \<not> blankSecondLevel line"
  by (auto simp: secondLevelHeading_def blankSecondLevel_def dest: trim_blank)

text \<open>
  Every entry has a heading line, and its category is the trimmed text of the nearest line
  above that the pattern matches, or the sentinel when the pattern matches no line above.
\<close>

lemma entry_category_from_matching_line:
  assumes "parseMarkdown md = Inr r" and "e \<in> set (entries r)"
  shows "\<exists>i. headingOf (splitLines md) e i \<and> title e = trim (drop 3 (splitLines md ! i)) \<and>
           ((\<exists>k. k < i \<and> matchH2 (splitLines md ! k) \<noteq> None \<and>
                 (\<forall>k'. k < k' \<and> k' < i \<longrightarrow> matchH2 (splitLines md ! k') = None) \<and>
                 category e = trim (drop 2 (splitLines md ! k))) \<or>
            ((\<forall>k<i. matchH2 (splitLines md ! k) = None) \<and>
                 category e = js ''Uncategorized''))"
proof -
  let ?lines = "splitLines md"
  have "list_all (\<lambda>e. \<exists>i. headingOf ?lines e i) (entries r)"
    using assms(1) unfolding parseMarkdown_def
    by (rule entries_have_headings) simp
  with assms(2) obtain i where i: "headingOf ?lines e i"
    by (auto simp: list_all_iff)
  then have il: "i \<le> length ?lines" and cat: "categoryFrom ?lines i = Inr (category e)"
    by (simp_all add: headingOf_def findNearestCategory_def)
  from i obtain g where g: "matchH3 (?lines ! i) = Some g" "title e = trim g"
    by (auto simp: headingOf_def split: option.splits)
  then have ttl: "title e = trim (drop 3 (?lines ! i))"
    by (simp add: matchH3_title)
  from categoryFrom_cases [OF il] cat
  have "(\<exists>k. k < i \<and> matchH2 (?lines ! k) \<noteq> None \<and>
                 (\<forall>k'. k < k' \<and> k' < i \<longrightarrow> matchH2 (?lines ! k') = None) \<and>
                 category e = trim (drop 2 (?lines ! k))) \<or>
            ((\<forall>k<i. matchH2 (?lines ! k) = None) \<and>
                 category e = js ''Uncategorized'')"
    by auto
  with i ttl show ?thesis by blast
qed

text \<open>
  Where no blank second-level line stands above the heading line of an entry, the category
  is the trimmed text of the nearest second-level heading line above, or the sentinel when
  there is none.
\<close>

lemma matchH2_iff_heading:
  assumes "\<not> blankSecondLevel line"
  shows "matchH2 line = None \<longleftrightarrow> \<not> secondLevelHeading line"
proof
  assume n: "matchH2 line = None"
  show "\<not> secondLevelHeading line"
  proof
    assume "secondLevelHeading line"
    then obtain g where "matchH2 line = Some g" using secondLevelHeading_matches by blast
    with n show False by simp
  qed
next
  assume h: "\<not> secondLevelHeading line"
  show "matchH2 line = None"
  proof (cases "matchH2 line")
    case None
    then show ?thesis .
  next
    case (Some g)
    then have "secondLevelHeading line \<or> blankSecondLevel line"
      by (rule matchH2_heading_or_blank)
    with h assms show ?thesis by simp
  qed
qed

lemma category_of_entry_away_from_blank_headings:
  assumes "parseMarkdown md = Inr r" and "e \<in> set (entries r)"
  shows "\<exists>i. headingOf (splitLines md) e i \<and>
           ((\<forall>k<i. \<not> blankSecondLevel (splitLines md ! k)) \<longrightarrow>
             ((\<exists>k. k < i \<and> secondLevelHeading (splitLines md ! k) \<and>
                 (\<forall>k'. k < k' \<and> k' < i \<longrightarrow> \<not> secondLevelHeading (splitLines md ! k')) \<and>
                 category e = trim (drop 2 (splitLines md ! k))) \<or>
              ((\<forall>k<i. \<not> secondLevelHeading (splitLines md ! k)) \<and>
                 category e = js ''Uncategorized'')))"
proof -
  let ?lines = "splitLines md"
  let ?near = "\<lambda>i k. k < i \<and> secondLevelHeading (?lines ! k) \<and>
                 (\<forall>k'. k < k' \<and> k' < i \<longrightarrow> \<not> secondLevelHeading (?lines ! k')) \<and>
                 category e = trim (drop 2 (?lines ! k))"
  let ?none = "\<lambda>i. (\<forall>k<i. \<not> secondLevelHeading (?lines ! k)) \<and>
                 category e = js ''Uncategorized''"
  from entry_category_from_matching_line [OF assms] obtain i
    where all: "headingOf ?lines e i \<and> title e = trim (drop 3 (?lines ! i)) \<and>
           ((\<exists>k. k < i \<and> matchH2 (?lines ! k) \<noteq> None \<and>
                 (\<forall>k'. k < k' \<and> k' < i \<longrightarrow> matchH2 (?lines ! k') = None) \<and>
                 category e = trim (drop 2 (?lines ! k))) \<or>
            ((\<forall>k<i. matchH2 (?lines ! k) = None) \<and>
                 category e = js ''Uncategorized''))" by (rule exE)
  from all have i: "headingOf ?lines e i" by (rule conjunct1)
  from all have c: "(\<exists>k. k < i \<and> matchH2 (?lines ! k) \<noteq> None \<and>
                 (\<forall>k'. k < k' \<and> k' < i \<longrightarrow> matchH2 (?lines ! k') = None) \<and>
                 category e = trim (drop 2 (?lines ! k))) \<or>
            ((\<forall>k<i. matchH2 (?lines ! k) = None) \<and>
                 category e = js ''Uncategorized'')"
    by (rule conjunct2 [THEN conjunct2])
  have main: "(\<exists>k. ?near i k) \<or> ?none i"
    if nb: "\<forall>k<i. \<not> blankSecondLevel (?lines ! k)"
  proof -
    have eq: "matchH2 (?lines ! k) = None \<longleftrightarrow> \<not> secondLevelHeading (?lines ! k)"
      if "k < i" for k
    proof (rule matchH2_iff_heading)
      from nb that show "\<not> blankSecondLevel (?lines ! k)" by simp
    qed
    from c show ?thesis
    proof
      assume "\<exists>k. k < i \<and> matchH2 (?lines ! k) \<noteq> None \<and>
                 (\<forall>k'. k < k' \<and> k' < i \<longrightarrow> matchH2 (?lines ! k') = None) \<and>
                 category e = trim (drop 2 (?lines ! k))"
      then obtain k where k: "k < i \<and> matchH2 (?lines ! k) \<noteq> None \<and>
                 (\<forall>k'. k < k' \<and> k' < i \<longrightarrow> matchH2 (?lines ! k') = None) \<and>
                 category e = trim (drop 2 (?lines ! k))" ..
      then have k1: "k < i" and k2: "matchH2 (?lines ! k) \<noteq> None"
        and k3: "\<forall>k'. k < k' \<and> k' < i \<longrightarrow> matchH2 (?lines ! k') = None"
        and k4: "category e = trim (drop 2 (?lines ! k))"
        by simp_all
      have h: "secondLevelHeading (?lines ! k)"
        using eq [OF k1] k2 by simp
      have above: "\<forall>k'. k < k' \<and> k' < i \<longrightarrow> \<not> secondLevelHeading (?lines ! k')"
      proof (intro allI impI)
        fix k'
        assume a: "k < k' \<and> k' < i"
        then have "matchH2 (?lines ! k') = None" using k3 by simp
        moreover from a have "k' < i" by simp
        ultimately show "\<not> secondLevelHeading (?lines ! k')" using eq [of k'] by simp
      qed
      from k1 h above k4 have "?near i k" by simp
      then have "\<exists>k. ?near i k" by (rule exI [where x = k])
      then show ?thesis by (rule disjI1)
    next
      assume n: "(\<forall>k<i. matchH2 (?lines ! k) = None) \<and> category e = js ''Uncategorized''"
      have "\<forall>k<i. \<not> secondLevelHeading (?lines ! k)"
      proof (intro allI impI)
        fix k
        assume a: "k < i"
        with n have "matchH2 (?lines ! k) = None" by simp
        with eq [OF a] show "\<not> secondLevelHeading (?lines ! k)" by simp
      qed
      with n have "?none i" by simp
      then show ?thesis by (rule disjI2)
    qed
  qed
  have imp: "(\<forall>k<i. \<not> blankSecondLevel (?lines ! k)) \<longrightarrow> ((\<exists>k. ?near i k) \<or> ?none i)"
  proof (rule impI)
    assume "\<forall>k<i. \<not> blankSecondLevel (?lines ! k)"
    then show "(\<exists>k. ?near i k) \<or> ?none i" by (rule main)
  qed
  from i imp have "headingOf ?lines e i \<and>
      ((\<forall>k<i. \<not> blankSecondLevel (?lines ! k)) \<longrightarrow> ((\<exists>k. ?near i k) \<or> ?none i))"
    by (rule conjI)
  then show ?thesis by (rule exI [where x = i])
qed


section \<open>The claims\<close>

text \<open>
  C1. The claim: the category facet set equals the set of categories of the emitted
  entries, and the network facet set the set of non-empty networks of their rows. The
  parser adds the category of a heading to the facet set before it looks for the table, so
  a heading without a table leaves its category in the set although no entry is emitted:
  here the document has no entry, and the category facet set holds \<open>A\<close>.
\<close>

theorem category_of_heading_without_table:
  "parseMarkdown (joinLines [js ''## A'', js ''### T'', js ''text'']) =
     Inr \<lparr>entries = [], networks = {}, categories = {js ''A''}\<rparr>"
  by code_simp

text \<open>
  C2. The document of the lines \<open>## Tokens\<close>, \<open>### MyToken\<close>, the table header,
  the separator and two rows parses to one entry with category \<open>Tokens\<close>, title
  \<open>MyToken\<close> and the two rows in order; the network facet set is
  \<open>{mainnet, testnet}\<close> and the category facet set \<open>{Tokens}\<close>.
\<close>

theorem parseMarkdown_tokens_document:
  "parseMarkdown (joinLines
     [js ''## Tokens'',
      js ''### MyToken'',
      js ''| Network | Address | Explorer | Constructor Args | Salt |'',
      js ''|---|---|---|---|---|'',
      js ''| mainnet | 0x1 | [x](http://e/1) | () | 0x0 |'',
      js ''| testnet | 0x2 | none | (1,2) | 0x1 |'']) =
   Inr \<lparr>entries =
          [\<lparr>category = js ''Tokens'', title = js ''MyToken'',
            rows =
              [\<lparr>network = js ''mainnet'', address = js ''0x1'', explorer = js ''http://e/1'',
                args = js ''()'', salt = js ''0x0''\<rparr>,
               \<lparr>network = js ''testnet'', address = js ''0x2'', explorer = js ''none'',
                args = js ''(1,2)'', salt = js ''0x1''\<rparr>]\<rparr>],
        networks = {js ''mainnet'', js ''testnet''},
        categories = {js ''Tokens''}\<rparr>"
  by code_simp

text \<open>
  C3. At a third-level heading whose next non-blank line is no table header (or that has
  no such line), the iteration emits no entry and moves the cursor to the line after the
  heading; the loop goes on from there, so later headings are processed as usual.
\<close>

theorem heading_without_table_skipped:
  assumes "i < length lines" and "matchH3 (lines ! i) = Some g"
    and "\<not> (skipBlank lines (Suc i) < length lines \<and>
            isTableHeader (lines ! skipBlank lines (Suc i)))"
  shows "\<exists>st'. scanStep lines i st = Inr (Suc i, st') \<and>
               entries st' = entries st \<and> networks st' = networks st \<and>
               parseLoop lines i st = parseLoop lines (Suc i) st'"
proof -
  from assms(1) obtain cat where cat: "findNearestCategory lines i = Inr cat"
    using findNearestCategory_total [of i lines] by auto
  let ?st' = "st\<lparr>categories := insert cat (categories st)\<rparr>"
  have step: "scanStep lines i st = Inr (Suc i, ?st')"
    using assms(1,2) cat assms(3) by (rule scanStep_no_table)
  have "parseLoop lines i st = parseLoop lines (Suc i) ?st'"
    using assms(1) step by (subst parseLoop.simps) simp
  with step show ?thesis by (intro exI [of _ ?st']) simp
qed

theorem heading_without_table_skipped_witness:
  "(0::nat) < length [js ''### A'', js ''some text'', js ''### B'', js ''| Network | Address |''] \<and>
   matchH3 ([js ''### A'', js ''some text'', js ''### B'', js ''| Network | Address |''] ! 0) = Some (js ''A'') \<and>
   (\<exists>st'. scanStep [js ''### A'', js ''some text'', js ''### B'', js ''| Network | Address |''] 0 emptyModel = Inr (Suc 0, st') \<and>
          entries st' = entries emptyModel \<and> networks st' = networks emptyModel \<and>
          parseLoop [js ''### A'', js ''some text'', js ''### B'', js ''| Network | Address |''] 0 emptyModel =
          parseLoop [js ''### A'', js ''some text'', js ''### B'', js ''| Network | Address |''] (Suc 0) st') \<and>
   parseLoop [js ''### A'', js ''some text'', js ''### B'', js ''| Network | Address |''] 0 emptyModel =
     Inr \<lparr>entries = [\<lparr>category = js ''Uncategorized'', title = js ''B'', rows = []\<rparr>],
          networks = {}, categories = {js ''Uncategorized''}\<rparr>"
proof -
  let ?L = "[js ''### A'', js ''some text'', js ''### B'', js ''| Network | Address |'']"
  have h1: "(0::nat) < length ?L" by simp
  have h2: "matchH3 (?L ! 0) = Some (js ''A'')" by code_simp
  have h3: "\<not> (skipBlank ?L (Suc 0) < length ?L \<and> isTableHeader (?L ! skipBlank ?L (Suc 0)))"
    by code_simp
  have v: "parseLoop ?L 0 emptyModel =
     Inr \<lparr>entries = [\<lparr>category = js ''Uncategorized'', title = js ''B'', rows = []\<rparr>],
          networks = {}, categories = {js ''Uncategorized''}\<rparr>"
    by code_simp
  from heading_without_table_skipped [OF h1 h2 h3, of emptyModel] h1 h2
  have "(0::nat) < length ?L \<and> matchH3 (?L ! 0) = Some (js ''A'') \<and>
    (\<exists>st'. scanStep ?L 0 emptyModel = Inr (Suc 0, st') \<and>
          entries st' = entries emptyModel \<and> networks st' = networks emptyModel \<and>
          parseLoop ?L 0 emptyModel = parseLoop ?L (Suc 0) st')"
    by blast
  with v show ?thesis by (simp only: simp_thms)
qed

text \<open>
  C7. The claim: a line is a third-level heading only if the text after \<open>###\<close> is
  not empty after trimming, and the title of an entry is that non-empty text. The line
  \<open>###\<close> followed by two spaces matches the pattern (the capture group is one space),
  and with a table header after it the parser emits an entry whose title is empty.
\<close>

theorem blank_heading_gives_empty_title:
  "matchH3 (js ''###  '') = Some (js '' '') \<and>
   parseMarkdown (joinLines [js ''###  '', js ''| Network | Address |'']) =
     Inr \<lparr>entries = [\<lparr>category = js ''Uncategorized'', title = [], rows = []\<rparr>],
          networks = {}, categories = {js ''Uncategorized''}\<rparr>"
  by code_simp

text \<open>
  C9, as amended. For every input text, however malformed, the parser returns a result
  and raises no error; every iteration of the outer loop, at a cursor inside the document,
  returns with a cursor that is strictly greater. Nothing is said on how a malformed table
  changes the entries and rows.
\<close>

theorem parseMarkdown_returns:
  "(\<exists>r. parseMarkdown md = Inr r) \<and>
   (\<forall>lines i st. i < length lines \<longrightarrow>
      (\<exists>i' st'. scanStep lines i st = Inr (i', st') \<and> i < i'))"
  using parseLoop_total scanStep_advances unfolding parseMarkdown_def by blast

theorem parseMarkdown_returns_witness:
  "(\<exists>r. parseMarkdown (joinLines
           [js ''### T'', js ''| Network | Address | Explorer | Constructor Args | Salt |'',
            js ''### U'', js ''| mainnet | 0x1'']) = Inr r) \<and>
   (0::nat) < length [js ''### T'', js ''| Network | Address |'', js ''| a | b'', js ''### U''] \<and>
   (\<exists>i' st'. scanStep [js ''### T'', js ''| Network | Address |'', js ''| a | b'', js ''### U''] 0
                 emptyModel = Inr (i', st') \<and> 0 < i') \<and>
   scanStep [js ''### T'', js ''| Network | Address |'', js ''| a | b'', js ''### U''] 0 emptyModel =
     Inr (3, \<lparr>entries = [\<lparr>category = js ''Uncategorized'', title = js ''T'', rows = []\<rparr>],
              networks = {}, categories = {js ''Uncategorized''}\<rparr>)"
proof -
  let ?L = "[js ''### T'', js ''| Network | Address |'', js ''| a | b'', js ''### U'']"
  have h: "(0::nat) < length ?L" by simp
  have v: "scanStep ?L 0 emptyModel =
     Inr (3, \<lparr>entries = [\<lparr>category = js ''Uncategorized'', title = js ''T'', rows = []\<rparr>],
              networks = {}, categories = {js ''Uncategorized''}\<rparr>)"
    by code_simp
  from parseMarkdown_returns [of "joinLines
           [js ''### T'', js ''| Network | Address | Explorer | Constructor Args | Salt |'',
            js ''### U'', js ''| mainnet | 0x1'']"] h
  have "(\<exists>r. parseMarkdown (joinLines
           [js ''### T'', js ''| Network | Address | Explorer | Constructor Args | Salt |'',
            js ''### U'', js ''| mainnet | 0x1'']) = Inr r) \<and>
   (0::nat) < length ?L \<and>
   (\<exists>i' st'. scanStep ?L 0 emptyModel = Inr (i', st') \<and> 0 < i')"
    by blast
  with v show ?thesis by (simp only: simp_thms)
qed

text \<open>
  C9, the last clause of the claim as first stated: malformed or absent tables only produce
  fewer entries or fewer rows. The line after a table header is skipped as the separator
  whatever it holds. With a blank line between the header and the separator, the separator
  becomes a row: the same entry has two rows instead of one, and \<open>---\<close> joins the
  networks. With the separator of the first table missing, the heading \<open>### U\<close> is
  skipped in its place, and the first entry takes the header, the separator and the row of
  the second table: three rows instead of none.
\<close>

theorem malformed_table_gains_rows:
  "parseMarkdown (joinLines
     [js ''### T'',
      js ''| Network | Address | Explorer | Constructor Args | Salt |'',
      js ''|---|---|---|---|---|'',
      js ''| mainnet | 0x1 | none | () | 0x0 |'']) =
   Inr \<lparr>entries =
          [\<lparr>category = js ''Uncategorized'', title = js ''T'',
            rows = [\<lparr>network = js ''mainnet'', address = js ''0x1'', explorer = js ''none'',
                     args = js ''()'', salt = js ''0x0''\<rparr>]\<rparr>],
        networks = {js ''mainnet''}, categories = {js ''Uncategorized''}\<rparr> \<and>
   parseMarkdown (joinLines
     [js ''### T'',
      js ''| Network | Address | Explorer | Constructor Args | Salt |'',
      js '''',
      js ''|---|---|---|---|---|'',
      js ''| mainnet | 0x1 | none | () | 0x0 |'']) =
   Inr \<lparr>entries =
          [\<lparr>category = js ''Uncategorized'', title = js ''T'',
            rows = [\<lparr>network = js ''---'', address = js ''---'', explorer = js ''---'',
                     args = js ''---'', salt = js ''---''\<rparr>,
                    \<lparr>network = js ''mainnet'', address = js ''0x1'', explorer = js ''none'',
                     args = js ''()'', salt = js ''0x0''\<rparr>]\<rparr>],
        networks = {js ''---'', js ''mainnet''}, categories = {js ''Uncategorized''}\<rparr> \<and>
   parseMarkdown (joinLines
     [js ''### T'',
      js ''| Network | Address | Explorer | Constructor Args | Salt |'',
      js ''|---|---|---|---|---|'',
      js ''### U'',
      js ''| Network | Address | Explorer | Constructor Args | Salt |'',
      js ''|---|---|---|---|---|'',
      js ''| mainnet | 0x1 | none | () | 0x0 |'']) =
   Inr \<lparr>entries =
          [\<lparr>category = js ''Uncategorized'', title = js ''T'', rows = []\<rparr>,
           \<lparr>category = js ''Uncategorized'', title = js ''U'',
            rows = [\<lparr>network = js ''mainnet'', address = js ''0x1'', explorer = js ''none'',
                     args = js ''()'', salt = js ''0x0''\<rparr>]\<rparr>],
        networks = {js ''mainnet''}, categories = {js ''Uncategorized''}\<rparr> \<and>
   parseMarkdown (joinLines
     [js ''### T'',
      js ''| Network | Address | Explorer | Constructor Args | Salt |'',
      js ''### U'',
      js ''| Network | Address | Explorer | Constructor Args | Salt |'',
      js ''|---|---|---|---|---|'',
      js ''| mainnet | 0x1 | none | () | 0x0 |'']) =
   Inr \<lparr>entries =
          [\<lparr>category = js ''Uncategorized'', title = js ''T'',
            rows = [\<lparr>network = js ''Network'', address = js ''Address'', explorer = js ''Explorer'',
                     args = js ''Constructor Args'', salt = js ''Salt''\<rparr>,
                    \<lparr>network = js ''---'', address = js ''---'', explorer = js ''---'',
                     args = js ''---'', salt = js ''---''\<rparr>,
                    \<lparr>network = js ''mainnet'', address = js ''0x1'', explorer = js ''none'',
                     args = js ''()'', salt = js ''0x0''\<rparr>]\<rparr>],
        networks = {js ''Network'', js ''---'', js ''mainnet''},
        categories = {js ''Uncategorized''}\<rparr>"
  by code_simp



text \<open>
  C4. In the table under a heading, a line whose cells are fewer than five adds no row:
  the row loop goes on from the next line with the rows and networks it had. The entry is
  emitted all the same, its rows being those kept from the table lines before and after
  that line, and the cursor returned by the iteration lies beyond the line.
\<close>

theorem short_row_dropped:
  assumes "i < length lines" and "matchH3 (lines ! i) = Some g"
    and "h = skipBlank lines (Suc i)" and "h < length lines" and "isTableHeader (lines ! h)"
    and "T = tableLines lines (h + 2)" and "n < length T"
    and "length (splitMarkdownRow (T ! n)) < 5"
  shows "T ! n = lines ! (h + 2 + n) \<and>
         (\<forall>rs nets. tableRows lines (h + 2 + n) rs nets =
                     tableRows lines (Suc (h + 2 + n)) rs nets) \<and>
         (\<exists>cat i' st'. scanStep lines i st = Inr (i', st') \<and> h + 2 + n < i' \<and>
            entries st' = entries st @
              [\<lparr>category = cat, title = trim g,
                rows = keptRows (take n T) @ keptRows (drop (Suc n) T)\<rparr>])"
proof -
  from assms(6,7) have n: "n < length (tableLines lines (h + 2))" by simp
  have eq: "T ! n = lines ! (h + 2 + n)"
    unfolding assms(6) using n by (rule tableLines_nth)
  have lt: "h + 2 + n < length lines" using n by (rule tableLines_nth)
  have sp: "startsWithPipe (lines ! (h + 2 + n))" using n by (rule tableLines_nth)
  have short: "\<not> 5 \<le> length (splitMarkdownRow (lines ! (h + 2 + n)))"
    using assms(8) eq by simp
  have skip: "tableRows lines (h + 2 + n) rs nets = tableRows lines (Suc (h + 2 + n)) rs nets"
    for rs nets
    using lt sp short by (rule tableRows_drop)
  from assms(1) obtain cat where cat: "findNearestCategory lines i = Inr cat"
    using findNearestCategory_total [of i lines] by auto
  have "T = take n T @ T ! n # drop (Suc n) T"
    using assms(7) by (rule id_take_nth_drop)
  then have "keptRows T = keptRows (take n T) @ keptRows (T ! n # drop (Suc n) T)"
    using keptRows_append [of "take n T" "T ! n # drop (Suc n) T"] by simp
  also have "keptRows (T ! n # drop (Suc n) T) = keptRows (drop (Suc n) T)"
    using assms(8) by (simp add: keptRows_def)
  finally have kept: "keptRows T = keptRows (take n T) @ keptRows (drop (Suc n) T)" .
  let ?st' = "st\<lparr>categories := insert cat (categories st),
             entries := entries st @ [\<lparr>category = cat, title = trim g, rows = keptRows T\<rparr>],
             networks := networks st \<union> namedNetworks (keptRows T)\<rparr>"
  have step: "scanStep lines i st = Inr (h + 2 + length T, ?st')"
    unfolding assms(6) assms(3)
    using assms(1,2) cat assms(4,5) [unfolded assms(3)] by (rule scanStep_table)
  have "\<exists>cat i' st'. scanStep lines i st = Inr (i', st') \<and> h + 2 + n < i' \<and>
            entries st' = entries st @
              [\<lparr>category = cat, title = trim g,
                rows = keptRows (take n T) @ keptRows (drop (Suc n) T)\<rparr>]"
    using step assms(7) kept
    by (intro exI [of _ cat] exI [of _ "h + 2 + length T"] exI [of _ ?st']) simp
  with eq skip show ?thesis by blast
qed

theorem short_row_dropped_witness:
  "(0::nat) < length [js ''### T'', js ''| Network | Address |'', js ''|-|-|'',
                      js ''| a | b | c | d |'', js ''| a | b | c | d | e |''] \<and>
   (\<exists>cat i' st'.
      scanStep [js ''### T'', js ''| Network | Address |'', js ''|-|-|'',
                js ''| a | b | c | d |'', js ''| a | b | c | d | e |''] 0 emptyModel = Inr (i', st') \<and>
      1 + 2 + 0 < i' \<and>
      entries st' = entries emptyModel @
        [\<lparr>category = cat, title = trim (js ''T''),
          rows = keptRows (take 0 [js ''| a | b | c | d |'', js ''| a | b | c | d | e |'']) @
                 keptRows (drop (Suc 0) [js ''| a | b | c | d |'', js ''| a | b | c | d | e |''])\<rparr>]) \<and>
   scanStep [js ''### T'', js ''| Network | Address |'', js ''|-|-|'',
             js ''| a | b | c | d |'', js ''| a | b | c | d | e |''] 0 emptyModel =
     Inr (5, \<lparr>entries =
                [\<lparr>category = js ''Uncategorized'', title = js ''T'',
                  rows = [\<lparr>network = js ''a'', address = js ''b'', explorer = js ''c'',
                           args = js ''d'', salt = js ''e''\<rparr>]\<rparr>],
              networks = {js ''a''}, categories = {js ''Uncategorized''}\<rparr>)"
proof -
  let ?L = "[js ''### T'', js ''| Network | Address |'', js ''|-|-|'',
             js ''| a | b | c | d |'', js ''| a | b | c | d | e |'']"
  let ?T = "[js ''| a | b | c | d |'', js ''| a | b | c | d | e |'']"
  have h1: "(0::nat) < length ?L" by simp
  have h2: "matchH3 (?L ! 0) = Some (js ''T'')" by code_simp
  have h3: "1 = skipBlank ?L (Suc 0)" by code_simp
  have h4: "(1::nat) < length ?L" by simp
  have h5: "isTableHeader (?L ! 1)" by code_simp
  have h6: "?T = tableLines ?L (1 + 2)" by code_simp
  have h7: "(0::nat) < length ?T" by simp
  have h8: "length (splitMarkdownRow (?T ! 0)) < 5" by code_simp
  have v: "scanStep ?L 0 emptyModel =
     Inr (5, \<lparr>entries =
                [\<lparr>category = js ''Uncategorized'', title = js ''T'',
                  rows = [\<lparr>network = js ''a'', address = js ''b'', explorer = js ''c'',
                           args = js ''d'', salt = js ''e''\<rparr>]\<rparr>],
              networks = {js ''a''}, categories = {js ''Uncategorized''}\<rparr>)"
    by code_simp
  from short_row_dropped [OF h1 h2 h3 h4 h5 h6 h7 h8, of emptyModel] h1
  have "(0::nat) < length ?L \<and>
    (\<exists>cat i' st'. scanStep ?L 0 emptyModel = Inr (i', st') \<and> 1 + 2 + 0 < i' \<and>
      entries st' = entries emptyModel @
        [\<lparr>category = cat, title = trim (js ''T''),
          rows = keptRows (take 0 ?T) @ keptRows (drop (Suc 0) ?T)\<rparr>])"
    by blast
  with v show ?thesis by (simp only: simp_thms)
qed

text \<open>
  C5. The claim: the category of an entry is the trimmed text of the nearest second-level
  heading line strictly above its heading line, and \<open>Uncategorized\<close> when there is
  none. The line \<open>##\<close> followed by two spaces is no heading line (it has no text),
  yet the pattern of \<open>findNearestCategory\<close> matches it, the capture group being one
  space: under \<open>## Tokens\<close> it gives the entry the empty category instead of
  \<open>Tokens\<close>, and with no heading above it gives the empty category instead of
  \<open>Uncategorized\<close>. With one space after \<open>##\<close> the line is passed over.
\<close>

theorem blank_second_level_heading_gives_empty_category:
  "matchH2 (js ''##  '') = Some (js '' '') \<and>
   matchH2 (js ''## '') = None \<and>
   secondLevelHeading (js ''##  '') = False \<and>
   parseMarkdown (joinLines [js ''## Tokens'', js ''##  '', js ''### A'', js ''| Network | Address |'']) =
     Inr \<lparr>entries = [\<lparr>category = [], title = js ''A'', rows = []\<rparr>],
          networks = {}, categories = {[]}\<rparr> \<and>
   parseMarkdown (joinLines [js ''## Tokens'', js ''## '', js ''### A'', js ''| Network | Address |'']) =
     Inr \<lparr>entries = [\<lparr>category = js ''Tokens'', title = js ''A'', rows = []\<rparr>],
          networks = {}, categories = {js ''Tokens''}\<rparr> \<and>
   parseMarkdown (joinLines [js ''##  '', js ''### A'', js ''| Network | Address |'']) =
     Inr \<lparr>entries = [\<lparr>category = [], title = js ''A'', rows = []\<rparr>],
          networks = {}, categories = {[]}\<rparr>"
  by code_simp

text \<open>
  C6. The cells of a row are the trimmed pieces between the pipes, but for the third one
  (position 2): it is the text inside its first parenthesis group when it has one, and the
  trimmed piece itself otherwise. The link to Etherscan gives its address, and
  \<open>n/a\<close> stays as it is.
\<close>

theorem explorer_cell_normalized:
  "length (splitMarkdownRow row) = length (rawCells row) \<and>
   (\<forall>i. i < length (rawCells row) \<and> i \<noteq> 2 \<longrightarrow>
        splitMarkdownRow row ! i = trim (rawCells row ! i)) \<and>
   (2 < length (rawCells row) \<longrightarrow>
      (\<exists>n. parenGroupAt (trim (rawCells row ! 2)) n (splitMarkdownRow row ! 2) \<and>
           (\<forall>m b. m < n \<longrightarrow> \<not> parenGroupAt (trim (rawCells row ! 2)) m b)) \<or>
      ((\<forall>n b. \<not> parenGroupAt (trim (rawCells row ! 2)) n b) \<and>
           splitMarkdownRow row ! 2 = trim (rawCells row ! 2))) \<and>
   cleanCell 2 (js ''[Etherscan](https://etherscan.io/address/0xABC)'') =
     js ''https://etherscan.io/address/0xABC'' \<and>
   cleanCell 2 (js ''n/a'') = js ''n/a''"
proof -
  have others: "splitMarkdownRow row ! i = trim (rawCells row ! i)"
    if "i < length (rawCells row) \<and> i \<noteq> 2" for i
    using that by (simp add: splitMarkdownRow_nth cleanCell_def)
  have third: "(\<exists>n. parenGroupAt (trim (rawCells row ! 2)) n (splitMarkdownRow row ! 2) \<and>
           (\<forall>m b. m < n \<longrightarrow> \<not> parenGroupAt (trim (rawCells row ! 2)) m b)) \<or>
      ((\<forall>n b. \<not> parenGroupAt (trim (rawCells row ! 2)) n b) \<and>
           splitMarkdownRow row ! 2 = trim (rawCells row ! 2))"
    if len: "2 < length (rawCells row)"
  proof (cases "firstGroup (trim (rawCells row ! 2))")
    case None
    then have "splitMarkdownRow row ! 2 = trim (rawCells row ! 2)"
      using len by (simp add: splitMarkdownRow_nth cleanCell_def)
    with None show ?thesis by (auto dest: firstGroup_None)
  next
    case (Some u)
    then have "splitMarkdownRow row ! 2 = u"
      using len by (simp add: splitMarkdownRow_nth cleanCell_def)
    with firstGroup_Some [OF Some] show ?thesis by auto
  qed
  have ex1: "cleanCell 2 (js ''[Etherscan](https://etherscan.io/address/0xABC)'') =
     js ''https://etherscan.io/address/0xABC''" by code_simp
  have ex2: "cleanCell 2 (js ''n/a'') = js ''n/a''" by code_simp
  from others third ex1 ex2 show ?thesis
    by (simp only: splitMarkdownRow_length) blast
qed

theorem explorer_cell_normalized_witness:
  "(2::nat) < length (rawCells (js ''| m | 0x1 | [x](http://e/1) | () | 0x0 |'')) \<and>
   (0::nat) < length (rawCells (js ''| m | 0x1 | [x](http://e/1) | () | 0x0 |'')) \<and>
   splitMarkdownRow (js ''| m | 0x1 | [x](http://e/1) | () | 0x0 |'') ! 0 =
     trim (rawCells (js ''| m | 0x1 | [x](http://e/1) | () | 0x0 |'') ! 0) \<and>
   splitMarkdownRow (js ''| m | 0x1 | [x](http://e/1) | () | 0x0 |'') =
     [js ''m'', js ''0x1'', js ''http://e/1'', js ''()'', js ''0x0''] \<and>
   parenGroupAt (trim (rawCells (js ''| m | 0x1 | [x](http://e/1) | () | 0x0 |'') ! 2)) 3
     (js ''http://e/1'')"
proof -
  let ?R = "js ''| m | 0x1 | [x](http://e/1) | () | 0x0 |''"
  have h1: "(2::nat) < length (rawCells ?R)" by code_simp
  have h0: "(0::nat) < length (rawCells ?R)" by code_simp
  have v: "splitMarkdownRow ?R = [js ''m'', js ''0x1'', js ''http://e/1'', js ''()'', js ''0x0'']"
    by code_simp
  have p: "parenGroupAt (trim (rawCells ?R ! 2)) 3 (js ''http://e/1'')" by code_simp
  from explorer_cell_normalized [of ?R] h0
  have "splitMarkdownRow ?R ! 0 = trim (rawCells ?R ! 0)" by simp
  with h1 h0 v p show ?thesis by simp
qed


end
